theory Spec2Isabelle
  imports Main "HOL-Library.Char_ord" "HOL-Library.List_Lexorder"
begin

section \<open>The AVL tree of avl.c, embedded\<close>

text \<open>
  The program keeps a binary tree of heap cells \<^verbatim>\<open>struct node\<close>; every cell is reached through
  exactly one pointer (its parent's child slot, or \<^verbatim>\<open>tree->root\<close>), so a pointer to a cell is
  modelled by the cell's subtree and \<^verbatim>\<open>NULL\<close> by the constructor \<open>Null\<close>. The fields come in the
  order of the struct. A \<^verbatim>\<open>char *\<close> is modelled by the string it points to: outside
  \<^verbatim>\<open>destroy\<close> the program never writes to or frees a word once \<^verbatim>\<open>createNode\<close> has copied it.
  C \<^verbatim>\<open>int\<close> values are modelled by integers. The two places that step a count,
  \<^verbatim>\<open>(root->count)++\<close> and \<^verbatim>\<open>(root->count)--\<close>, wrap around as 32-bit two's complement
  arithmetic does (\<open>int_wrap\<close> below). A height is at most the number of cells on a path of
  the tree and stays far from that range.
  \<^verbatim>\<open>malloc\<close> is taken to succeed and \<^verbatim>\<open>free\<close> leaves no trace in the model.
\<close>

datatype node =
    Null
  | Node (word: string) (count: int) (left: node) (right: node) (height: int)

record tree =
  root :: node

text \<open>
  What the functions do beyond returning a pointer: \<^verbatim>\<open>deleteAux\<close> calls \<^verbatim>\<open>rand()\<close> and
  prints. The values of the successive \<^verbatim>\<open>rand()\<close> calls are a parameter \<open>rnd :: nat \<Rightarrow> int\<close>
  of the model; the state records how many calls were made and what was printed.
\<close>

record world =
  rand_calls :: nat
  stdout :: string

subsection \<open>Library function\<close>

text \<open>
  \<^verbatim>\<open>strcmp\<close> belongs to the C library: it compares two strings byte by byte as unsigned
  characters and returns a negative, zero or positive value. The program only looks at
  the sign. The order on strings is the lexicographic one over the byte values.
\<close>

definition strcmp :: "string \<Rightarrow> string \<Rightarrow> int" where
  "strcmp a b = (if a < b then - 1 else if a = b then 0 else 1)"

subsection \<open>Arithmetic on a C int\<close>

text \<open>
  The value a 32-bit \<^verbatim>\<open>int\<close> holds after an arithmetic step whose exact result is \<open>x\<close>:
  \<open>x\<close> itself from \<open>-2^31\<close> to \<open>2^31 - 1\<close>, and \<open>x\<close> reduced modulo \<open>2^32\<close> into that range
  beyond it (the C standard leaves the overflow undefined; the machine wraps).
\<close>

definition int_wrap :: "int \<Rightarrow> int" where
  "int_wrap x = (x + 2147483648) mod 4294967296 - 2147483648"

subsection \<open>Miscellaneous helpers\<close>

text \<open>
  The C functions \<^verbatim>\<open>max\<close>, \<^verbatim>\<open>height\<close> and \<^verbatim>\<open>insert\<close> are \<open>max_c\<close>, \<open>height_c\<close> and \<open>insert_c\<close>
  here: the plain names belong to HOL and to the selector of the \<^verbatim>\<open>height\<close> field.
\<close>

definition max_c :: "int \<Rightarrow> int \<Rightarrow> int" where
  "max_c a b = (if a > b then a else b)"

fun height_c :: "node \<Rightarrow> int" where
  "height_c Null = 0"
| "height_c (Node w c l r h) = h"

fun getBalance :: "node \<Rightarrow> int" where
  "getBalance Null = 0"
| "getBalance (Node w c l r h) = height_c l - height_c r"

text \<open>
  \<^verbatim>\<open>largestIn\<close> and \<^verbatim>\<open>smallestIn\<close> read \<^verbatim>\<open>root->right\<close> (\<^verbatim>\<open>root->left\<close>) without a test:
  on \<^verbatim>\<open>NULL\<close> they dereference a null pointer, which is the result \<open>None\<close>.
\<close>

fun largestIn :: "node \<Rightarrow> node option" where
  "largestIn Null = None"
| "largestIn (Node w c l r h) =
     (if r \<noteq> Null then largestIn r else Some (Node w c l r h))"

fun smallestIn :: "node \<Rightarrow> node option" where
  "smallestIn Null = None"
| "smallestIn (Node w c l r h) =
     (if l \<noteq> Null then smallestIn l else Some (Node w c l r h))"

fun createNode :: "string \<Rightarrow> node" where
  "createNode w = Node w 1 Null Null 1"

definition createTree :: tree where
  "createTree = \<lparr>root = Null\<rparr>"

subsection \<open>Rotations and rebalancing\<close>

text \<open>
  A rotation reads the child it promotes and that child's inner subtree without a test;
  \<open>None\<close> is the null-pointer dereference. The height of the demoted cell is recomputed
  first, then the height of the promoted one.
\<close>

fun rotateLeft :: "node \<Rightarrow> node option" where
  "rotateLeft (Node w c l (Node rw rc rl rr rh) h) =
     (let x = Node w c l rl (max_c (height_c l) (height_c rl) + 1)
      in Some (Node rw rc x rr (max_c (height_c x) (height_c rr) + 1)))"
| "rotateLeft _ = None"

fun rotateRight :: "node \<Rightarrow> node option" where
  "rotateRight (Node w c (Node lw lc ll lr lh) r h) =
     (let y = Node w c lr r (max_c (height_c lr) (height_c r) + 1)
      in Some (Node lw lc ll y (max_c (height_c ll) (height_c y) + 1)))"
| "rotateRight _ = None"

text \<open>
  \<^verbatim>\<open>rebalance\<close>: the four tests in the order of the source, each with its strict comparison
  of the child's balance factor. \<^verbatim>\<open>&&\<close> evaluates \<^verbatim>\<open>root->left\<close> only after
  \<^verbatim>\<open>balance > 1\<close>, which fails on \<^verbatim>\<open>NULL\<close> (\<^verbatim>\<open>getBalance(NULL)\<close> is 0), so \<^verbatim>\<open>rebalance\<close>
  itself reads no field of a null \<^verbatim>\<open>root\<close>. \<^verbatim>\<open>VERBOSE\<close> is 0: nothing is printed.
\<close>

fun rebalance :: "node \<Rightarrow> node option" where
  "rebalance Null = Some Null"
| "rebalance (Node w c l r h) =
     (let balance = getBalance (Node w c l r h) in
      if balance > 1 \<and> getBalance l > 0 then rotateRight (Node w c l r h)
      else if balance < - 1 \<and> getBalance r < 0 then rotateLeft (Node w c l r h)
      else if balance > 1 \<and> getBalance l < 0 then
        (case rotateLeft l of
           None \<Rightarrow> None
         | Some l' \<Rightarrow> rotateRight (Node w c l' r h))
      else if balance < - 1 \<and> getBalance r > 0 then
        (case rotateRight r of
           None \<Rightarrow> None
         | Some r' \<Rightarrow> rotateLeft (Node w c l r' h))
      else Some (Node w c l r h))"

text \<open>
  The tail shared by \<^verbatim>\<open>insertAux\<close> and \<^verbatim>\<open>deleteAux\<close>:
  \<^verbatim>\<open>root->height = max(height(root->left), height(root->right)) + 1; return rebalance(root);\<close>
\<close>

fun update_height :: "node \<Rightarrow> node" where
  "update_height Null = Null"
| "update_height (Node w c l r h) = Node w c l r (max_c (height_c l) (height_c r) + 1)"

definition update_rebalance :: "node \<Rightarrow> node option" where
  "update_rebalance nd = rebalance (update_height nd)"

subsection \<open>Insert\<close>

fun insertAux :: "node \<Rightarrow> string \<Rightarrow> node option" where
  "insertAux Null wd = Some (createNode wd)"
| "insertAux (Node w c l r h) wd =
     (let cmp = strcmp wd w in
      if cmp > 0 then
        (case insertAux r wd of
           None \<Rightarrow> None
         | Some r' \<Rightarrow> update_rebalance (Node w c l r' h))
      else if cmp < 0 then
        (case insertAux l wd of
           None \<Rightarrow> None
         | Some l' \<Rightarrow> update_rebalance (Node w c l' r h))
      else update_rebalance (Node w (int_wrap (c + 1)) l r h))"

definition insert_c :: "tree \<Rightarrow> string \<Rightarrow> tree option" where
  "insert_c t wd =
     (if root t \<noteq> Null then
        (case insertAux (root t) wd of
           None \<Rightarrow> None
         | Some nd \<Rightarrow> Some (t\<lparr>root := nd\<rparr>))
      else Some (t\<lparr>root := createNode wd\<rparr>))"

subsection \<open>Search\<close>

fun searchAux :: "node \<Rightarrow> string \<Rightarrow> node" where
  "searchAux Null wd = Null"
| "searchAux (Node w c l r h) wd =
     (let cmp = strcmp wd w in
      if cmp > 0 then searchAux r wd
      else if cmp < 0 then searchAux l wd
      else Node w c l r h)"

definition search :: "tree \<Rightarrow> string \<Rightarrow> node" where
  "search t wd = (if root t \<noteq> Null then searchAux (root t) wd else Null)"

subsection \<open>Delete\<close>

definition not_found_msg :: "string \<Rightarrow> string" where
  "not_found_msg wd = wd @ '' not found. Unable to delete.'' @ [CHR 0x0A]"

definition tree_empty_msg :: "string \<Rightarrow> string" where
  "tree_empty_msg wd =
     ''Tree is empty. Cannot remove '' @ [CHR 0x27] @ wd @ [CHR 0x27] @ ''.'' @ [CHR 0x0A]"

definition printf :: "string \<Rightarrow> world \<Rightarrow> world" where
  "printf msg s = s\<lparr>stdout := stdout s @ msg\<rparr>"

text \<open>
  \<^verbatim>\<open>deleteAux\<close>, branch by branch. \<open>forceful\<close> is the C \<^verbatim>\<open>int\<close> flag. In the branch with two
  children the parity of the next \<^verbatim>\<open>rand()\<close> value chooses the path; the path taken on an
  even value reads \<^verbatim>\<open>largestIn(root->right)\<close> and then deletes in \<^verbatim>\<open>root->left\<close>, as the
  source does. The three early returns skip the height update and the rebalancing.
\<close>

fun deleteAux :: "(nat \<Rightarrow> int) \<Rightarrow> node \<Rightarrow> string \<Rightarrow> int \<Rightarrow> world \<Rightarrow> (node \<times> world) option" where
  "deleteAux rnd Null wd forceful s = Some (Null, printf (not_found_msg wd) s)"
| "deleteAux rnd (Node w c l r h) wd forceful s =
     (let cmp = strcmp wd w in
      if cmp > 0 then
        (case deleteAux rnd r wd forceful s of
           None \<Rightarrow> None
         | Some (r', s') \<Rightarrow> map_option (\<lambda>nd. (nd, s')) (update_rebalance (Node w c l r' h)))
      else if cmp < 0 then
        (case deleteAux rnd l wd forceful s of
           None \<Rightarrow> None
         | Some (l', s') \<Rightarrow> map_option (\<lambda>nd. (nd, s')) (update_rebalance (Node w c l' r h)))
      else if c = 1 \<or> forceful \<noteq> 0 then
        (if l \<noteq> Null then
           (if r \<noteq> Null then
              (let path = rnd (rand_calls s) mod 2;
                   s1 = s\<lparr>rand_calls := rand_calls s + 1\<rparr>
               in if path \<noteq> 0 then
                    (case smallestIn r of
                       None \<Rightarrow> None
                     | Some temp \<Rightarrow>
                         (case deleteAux rnd r (word temp) 1 s1 of
                            None \<Rightarrow> None
                          | Some (r', s') \<Rightarrow>
                              map_option (\<lambda>nd. (nd, s'))
                                (update_rebalance (Node (word temp) (count temp) l r' h))))
                  else
                    (case largestIn r of
                       None \<Rightarrow> None
                     | Some temp \<Rightarrow>
                         (case deleteAux rnd l (word temp) 1 s1 of
                            None \<Rightarrow> None
                          | Some (l', s') \<Rightarrow>
                              map_option (\<lambda>nd. (nd, s'))
                                (update_rebalance (Node (word temp) (count temp) l' r h)))))
            else Some (l, s))
         else if r \<noteq> Null then Some (r, s)
         else Some (Null, s))
      else Some (Node w (int_wrap (c - 1)) l r h, s))"

definition deleteFromTree :: "(nat \<Rightarrow> int) \<Rightarrow> tree \<Rightarrow> string \<Rightarrow> world \<Rightarrow> (tree \<times> world) option" where
  "deleteFromTree rnd t wd s =
     (if root t \<noteq> Null then
        (case deleteAux rnd (root t) wd 0 s of
           None \<Rightarrow> None
         | Some (nd, s') \<Rightarrow> Some (t\<lparr>root := nd\<rparr>, s'))
      else Some (t, printf (tree_empty_msg wd) s))"

subsection \<open>Sequences of operations\<close>

text \<open>
  The main loop applies one command after the other to the single tree. Only the commands
  that change the tree are modelled; a run stops at the first null-pointer dereference.
\<close>

datatype operation = Insert string | Delete string

fun apply_operation :: "(nat \<Rightarrow> int) \<Rightarrow> operation \<Rightarrow> tree \<times> world \<Rightarrow> (tree \<times> world) option" where
  "apply_operation rnd (Insert wd) (t, s) = map_option (\<lambda>t'. (t', s)) (insert_c t wd)"
| "apply_operation rnd (Delete wd) (t, s) = deleteFromTree rnd t wd s"

fun run :: "(nat \<Rightarrow> int) \<Rightarrow> operation list \<Rightarrow> tree \<times> world \<Rightarrow> (tree \<times> world) option" where
  "run rnd [] st = Some st"
| "run rnd (x # xs) st =
     (case apply_operation rnd x st of
        None \<Rightarrow> None
      | Some st' \<Rightarrow> run rnd xs st')"

definition world0 :: world where
  "world0 = \<lparr>rand_calls = 0, stdout = []\<rparr>"

fun insert_all :: "tree \<Rightarrow> string list \<Rightarrow> tree option" where
  "insert_all t [] = Some t"
| "insert_all t (wd # wds) =
     (case insert_c t wd of
        None \<Rightarrow> None
      | Some t' \<Rightarrow> insert_all t' wds)"

subsection \<open>Insertion with a record of the rotations\<close>

text \<open>
  The same \<^verbatim>\<open>rebalance\<close> and \<^verbatim>\<open>insertAux\<close>, returning next to the tree the calls of
  \<^verbatim>\<open>rotateLeft\<close> and \<^verbatim>\<open>rotateRight\<close> they made, in order, each with the word of the cell
  it was called on.
\<close>

datatype rotation = RotateLeft string | RotateRight string

fun rebalance_traced :: "node \<Rightarrow> (node \<times> rotation list) option" where
  "rebalance_traced Null = Some (Null, [])"
| "rebalance_traced (Node w c l r h) =
     (let balance = getBalance (Node w c l r h) in
      if balance > 1 \<and> getBalance l > 0 then
        map_option (\<lambda>nd. (nd, [RotateRight w])) (rotateRight (Node w c l r h))
      else if balance < - 1 \<and> getBalance r < 0 then
        map_option (\<lambda>nd. (nd, [RotateLeft w])) (rotateLeft (Node w c l r h))
      else if balance > 1 \<and> getBalance l < 0 then
        (case rotateLeft l of
           None \<Rightarrow> None
         | Some l' \<Rightarrow>
             map_option (\<lambda>nd. (nd, [RotateLeft (word l), RotateRight w]))
               (rotateRight (Node w c l' r h)))
      else if balance < - 1 \<and> getBalance r > 0 then
        (case rotateRight r of
           None \<Rightarrow> None
         | Some r' \<Rightarrow>
             map_option (\<lambda>nd. (nd, [RotateRight (word r), RotateLeft w]))
               (rotateLeft (Node w c l r' h)))
      else Some (Node w c l r h, []))"

fun insertAux_traced :: "node \<Rightarrow> string \<Rightarrow> (node \<times> rotation list) option" where
  "insertAux_traced Null wd = Some (createNode wd, [])"
| "insertAux_traced (Node w c l r h) wd =
     (let cmp = strcmp wd w in
      if cmp > 0 then
        (case insertAux_traced r wd of
           None \<Rightarrow> None
         | Some (r', tr) \<Rightarrow>
             map_option (\<lambda>(nd, tr'). (nd, tr @ tr'))
               (rebalance_traced (update_height (Node w c l r' h))))
      else if cmp < 0 then
        (case insertAux_traced l wd of
           None \<Rightarrow> None
         | Some (l', tr) \<Rightarrow>
             map_option (\<lambda>(nd, tr'). (nd, tr @ tr'))
               (rebalance_traced (update_height (Node w c l' r h))))
      else rebalance_traced (update_height (Node w (int_wrap (c + 1)) l r h)))"

definition insert_traced :: "tree \<Rightarrow> string \<Rightarrow> (tree \<times> rotation list) option" where
  "insert_traced t wd =
     (if root t \<noteq> Null then
        (case insertAux_traced (root t) wd of
           None \<Rightarrow> None
         | Some (nd, tr) \<Rightarrow> Some (t\<lparr>root := nd\<rparr>, tr))
      else Some (t\<lparr>root := createNode wd\<rparr>, []))"

subsection \<open>Observations and invariants of the data model\<close>

text \<open>The in-order listing of the pairs (word, count), as \<^verbatim>\<open>printInOrder\<close> walks the tree.\<close>

fun inorder :: "node \<Rightarrow> (string \<times> int) list" where
  "inorder Null = []"
| "inorder (Node w c l r h) = inorder l @ (w, c) # inorder r"

definition keys :: "node \<Rightarrow> string list" where
  "keys nd = map fst (inorder nd)"

text \<open>The cells of a tree, each given by the subtree it anchors.\<close>

fun nodes :: "node \<Rightarrow> node list" where
  "nodes Null = []"
| "nodes (Node w c l r h) = nodes l @ Node w c l r h # nodes r"

text \<open>BST order: every key on the left is smaller, every key on the right is larger.\<close>

fun bst :: "node \<Rightarrow> bool" where
  "bst Null = True"
| "bst (Node w c l r h) =
     (list_all (\<lambda>k. k < w) (keys l) \<and> list_all (\<lambda>k. w < k) (keys r) \<and> bst l \<and> bst r)"

definition ascending :: "string list \<Rightarrow> bool" where
  "ascending ks = sorted_wrt (<) ks"

text \<open>Height correctness: the cached field against the height recomputed from the shape.\<close>

fun true_height :: "node \<Rightarrow> int" where
  "true_height Null = 0"
| "true_height (Node w c l r h) = 1 + max (true_height l) (true_height r)"

fun heights_ok :: "node \<Rightarrow> bool" where
  "heights_ok Null = True"
| "heights_ok (Node w c l r h) =
     (h = true_height (Node w c l r h) \<and> heights_ok l \<and> heights_ok r)"

text \<open>AVL balance, on the helper \<^verbatim>\<open>height\<close> as the data model states it.\<close>

fun balanced :: "node \<Rightarrow> bool" where
  "balanced Null = True"
| "balanced (Node w c l r h) =
     (\<bar>height_c l - height_c r\<bar> \<le> 1 \<and> balanced l \<and> balanced r)"

text \<open>What an insertion and a decrement mean on an ascending listing.\<close>

fun ins_list :: "string \<Rightarrow> (string \<times> int) list \<Rightarrow> (string \<times> int) list" where
  "ins_list k [] = [(k, 1)]"
| "ins_list k ((w, c) # es) =
     (if k < w then (k, 1) # (w, c) # es
      else if k = w then (w, int_wrap (c + 1)) # es
      else (w, c) # ins_list k es)"

definition dec_list :: "string \<Rightarrow> (string \<times> int) list \<Rightarrow> (string \<times> int) list" where
  "dec_list k es = map (\<lambda>e. if fst e = k then (fst e, int_wrap (snd e - 1)) else e) es"

subsection \<open>More definitions used by the statements\<close>

text \<open>
  A run of inserts with the rotations it made, one insert after the other.
\<close>

fun insert_all_traced :: "tree \<Rightarrow> string list \<Rightarrow> (tree \<times> rotation list) option" where
  "insert_all_traced t [] = Some (t, [])"
| "insert_all_traced t (wd # wds) =
     (case insert_traced t wd of
        None \<Rightarrow> None
      | Some (t', tr) \<Rightarrow> map_option (\<lambda>(t'', tr'). (t'', tr @ tr')) (insert_all_traced t' wds))"

text \<open>
  Two trees of the scenarios: the tree that inserting d, b, f, a, c, e, g builds, and
  the tree that inserting c, b, d, a, bb and deleting d leaves.
\<close>

definition seven_tree :: tree where
  "seven_tree = \<lparr>root =
     Node ''d'' 1
       (Node ''b'' 1 (Node ''a'' 1 Null Null 1) (Node ''c'' 1 Null Null 1) 2)
       (Node ''f'' 1 (Node ''e'' 1 Null Null 1) (Node ''g'' 1 Null Null 1) 2) 3\<rparr>"

definition left_heavy :: node where
  "left_heavy =
     Node ''c'' 1 (Node ''b'' 1 (Node ''a'' 1 Null Null 1) (Node ''bb'' 1 Null Null 1) 2) Null 3"

text \<open>
  The tree that deleting d from the first of them leaves when \<^verbatim>\<open>rand()\<close> is even.
\<close>

definition broken_tree :: tree where
  "broken_tree = \<lparr>root =
     Node ''g'' 1
       (Node ''b'' 1 (Node ''a'' 1 Null Null 1) (Node ''c'' 1 Null Null 1) 2)
       (Node ''f'' 1 (Node ''e'' 1 Null Null 1) (Node ''g'' 1 Null Null 1) 2) 3\<rparr>"




text \<open>
  A decrement in place: the count of the cell that the search for \<open>k\<close> reaches goes down by
  one, and no other field of any cell changes.
\<close>

fun decrement_count :: "node \<Rightarrow> string \<Rightarrow> node" where
  "decrement_count Null k = Null"
| "decrement_count (Node w c l r h) k =
     (if w < k then Node w c l (decrement_count r k) h
      else if k < w then Node w c (decrement_count l k) r h
      else Node w (int_wrap (c - 1)) l r h)"

section \<open>Lemmas\<close>

subsection \<open>Arithmetic of heights, rotations and rebalancing\<close>

lemma max_c_max [simp]: "max_c a b = max a b"
  by (simp add: max_c_def)

lemma strcmp_pos [simp]: "(0 < strcmp a b) = (b < a)"
  by (auto simp: strcmp_def)

lemma strcmp_neg [simp]: "(strcmp a b < 0) = (a < b)"
  by (simp add: strcmp_def)

lemma true_height_nonneg: "0 \<le> true_height t"
  by (induction t) auto

lemma true_height_Node_pos: "1 \<le> true_height (Node w c l r h)"
  using true_height_nonneg [of l] by simp

lemma height_c_true: "heights_ok t \<Longrightarrow> height_c t = true_height t"
  by (cases t) auto

lemma height_c_pos_iff: "heights_ok t \<Longrightarrow> (0 < height_c t) = (t \<noteq> Null)"
proof (cases t)
  case Null
  then show ?thesis by simp
next
  case (Node w c l r h)
  assume "heights_ok t"
  with Node true_height_Node_pos [of w c l r h] show ?thesis by simp
qed

lemma height_c_nonneg: "heights_ok t \<Longrightarrow> 0 \<le> height_c t"
  by (simp add: height_c_true true_height_nonneg)

lemma rotateLeft_inorder: "rotateLeft t = Some t' \<Longrightarrow> inorder t' = inorder t"
  by (erule rotateLeft.elims) (auto simp: Let_def)

lemma rotateRight_inorder: "rotateRight t = Some t' \<Longrightarrow> inorder t' = inorder t"
  by (erule rotateRight.elims) (auto simp: Let_def)

lemma rotateLeft_heights:
  "heights_ok l \<Longrightarrow> heights_ok r \<Longrightarrow> r \<noteq> Null \<Longrightarrow>
   \<exists>t'. rotateLeft (Node w c l r h) = Some t' \<and> heights_ok t'"
  by (cases r) (auto simp: Let_def height_c_true)

lemma rotateRight_heights:
  "heights_ok l \<Longrightarrow> heights_ok r \<Longrightarrow> l \<noteq> Null \<Longrightarrow>
   \<exists>t'. rotateRight (Node w c l r h) = Some t' \<and> heights_ok t'"
  by (cases l) (auto simp: Let_def height_c_true)

lemma rotateLeft_children:
  "rotateLeft (Node w c l r h) = Some t' \<Longrightarrow> heights_ok l \<Longrightarrow> heights_ok r \<Longrightarrow> heights_ok t'"
  using rotateLeft_heights [of l r w c h] by (cases r) auto

lemma rebalance_total:
  assumes "heights_ok l" "heights_ok r"
  shows "\<exists>t'. rebalance (Node w c l r h) = Some t' \<and> inorder t' = inorder l @ (w, c) # inorder r
     \<and> (h = 1 + max (height_c l) (height_c r) \<longrightarrow> heights_ok t')"
proof -
  let ?b = "height_c l - height_c r"
  consider (LL) "?b > 1" "getBalance l > 0"
    | (RR) "\<not> (?b > 1 \<and> getBalance l > 0)" "?b < - 1" "getBalance r < 0"
    | (LR) "?b > 1" "getBalance l < 0"
    | (RL) "\<not> (?b > 1 \<and> getBalance l > 0)" "?b < - 1" "getBalance r > 0"
    | (none) "\<not> (?b > 1 \<and> getBalance l > 0)" "\<not> (?b < - 1 \<and> getBalance r < 0)"
        "\<not> (?b > 1 \<and> getBalance l < 0)" "\<not> (?b < - 1 \<and> getBalance r > 0)"
    by linarith
  then show ?thesis
  proof cases
    case LL
    then have "l \<noteq> Null" by auto
    from rotateRight_heights [OF assms this, of w c h] obtain t' where
      t': "rotateRight (Node w c l r h) = Some t'" "heights_ok t'" by auto
    from rotateRight_inorder [OF t'(1)] LL t' show ?thesis by simp
  next
    case RR
    then have "r \<noteq> Null" by auto
    from rotateLeft_heights [OF assms(1) assms(2) this, of w c h] obtain t' where
      t': "rotateLeft (Node w c l r h) = Some t'" "heights_ok t'" by auto
    from rotateLeft_inorder [OF t'(1)] RR t' show ?thesis by simp
  next
    case LR
    then obtain lw lc ll lr lh where l: "l = Node lw lc ll lr lh" by (cases l) auto
    with assms have ok: "heights_ok ll" "heights_ok lr" by auto
    from LR l have "height_c ll < height_c lr" by simp
    with height_c_nonneg [OF ok(1)] have "0 < height_c lr" by linarith
    then have "lr \<noteq> Null" by auto
    from rotateLeft_heights [OF ok this, of lw lc lh] obtain l' where
      l': "rotateLeft l = Some l'" "heights_ok l'" using l by auto
    have "l' \<noteq> Null" using l'(1) l by (cases lr) (auto simp: Let_def)
    from rotateRight_heights [OF l'(2) assms(2) this, of w c h] obtain t' where
      t': "rotateRight (Node w c l' r h) = Some t'" "heights_ok t'" by auto
    from rotateRight_inorder [OF t'(1)] rotateLeft_inorder [OF l'(1)]
    have "inorder t' = inorder l @ (w, c) # inorder r" by simp
    with LR l' t' show ?thesis by simp
  next
    case RL
    then obtain rw rc rl rr rh where r: "r = Node rw rc rl rr rh" by (cases r) auto
    with assms have ok: "heights_ok rl" "heights_ok rr" by auto
    from RL r have "height_c rr < height_c rl" by simp
    with height_c_nonneg [OF ok(2)] have "0 < height_c rl" by linarith
    then have "rl \<noteq> Null" by auto
    from rotateRight_heights [OF ok this, of rw rc rh] obtain r' where
      r': "rotateRight r = Some r'" "heights_ok r'" using r by auto
    have "r' \<noteq> Null" using r'(1) r by (cases rl) (auto simp: Let_def)
    from rotateLeft_heights [OF assms(1) r'(2) this, of w c h] obtain t' where
      t': "rotateLeft (Node w c l r' h) = Some t'" "heights_ok t'" by auto
    from rotateLeft_inorder [OF t'(1)] rotateRight_inorder [OF r'(1)]
    have "inorder t' = inorder l @ (w, c) # inorder r" by simp
    with RL r' t' show ?thesis by simp
  next
    case none
    then have "rebalance (Node w c l r h) = Some (Node w c l r h)" by auto
    with assms show ?thesis by (simp add: height_c_true)
  qed
qed

lemma update_rebalance_ok:
  assumes "heights_ok l" "heights_ok r"
  shows "\<exists>t'. update_rebalance (Node w c l r h) = Some t' \<and> heights_ok t'
     \<and> inorder t' = inorder l @ (w, c) # inorder r"
  using rebalance_total [OF assms, of w c "1 + max (height_c l) (height_c r)"]
  by (auto simp: update_rebalance_def add.commute)


subsection \<open>BST order and the in-order listing\<close>

lemma keys_simps [simp]:
  "keys Null = []"
  "keys (Node w c l r h) = keys l @ w # keys r"
  by (simp_all add: keys_def)

lemma bst_Node [simp]:
  "bst (Node w c l r h) =
     ((\<forall>k \<in> set (keys l). k < w) \<and> (\<forall>k \<in> set (keys r). w < k) \<and> bst l \<and> bst r)"
  by (simp add: list_all_iff)

declare bst.simps(2) [simp del]

lemma bst_ascending: "bst t = ascending (keys t)"
  unfolding ascending_def
  by (induction t) (auto simp: sorted_wrt_append intro: less_trans)

lemma ins_list_left:
  "k < w \<Longrightarrow> ins_list k (xs @ (w, c) # ys) = ins_list k xs @ (w, c) # ys"
  by (induction xs) auto

lemma ins_list_right:
  "\<forall>e \<in> set xs. fst e < w \<Longrightarrow> w < k \<Longrightarrow>
   ins_list k (xs @ (w, c) # ys) = xs @ (w, c) # ins_list k ys"
  by (induction xs) auto

lemma ins_list_here:
  "\<forall>e \<in> set xs. fst e < w \<Longrightarrow> ins_list w (xs @ (w, c) # ys) = xs @ (w, int_wrap (c + 1)) # ys"
  by (induction xs) auto



subsection \<open>Insertion\<close>

lemma insertAux_ok:
  "heights_ok t \<Longrightarrow>
   \<exists>t'. insertAux t k = Some t' \<and> heights_ok t' \<and> t' \<noteq> Null \<and>
     (bst t \<longrightarrow> inorder t' = ins_list k (inorder t))"
proof (induction t)
  case Null
  then show ?case by simp
next
  case (Node w c l r h)
  then have okl: "heights_ok l" and okr: "heights_ok r" by auto
  have nn: "\<And>a b x t'. update_rebalance (Node w a x b h) = Some t' \<Longrightarrow>
      inorder t' = inorder x @ (w, a) # inorder b \<Longrightarrow> t' \<noteq> Null"
    by auto
  show ?case
  proof (cases "w < k")
    case True
    from Node.IH(2) [OF okr] obtain r' where
      r': "insertAux r k = Some r'" "heights_ok r'" "bst r \<longrightarrow> inorder r' = ins_list k (inorder r)"
      by auto
    from update_rebalance_ok [OF okl r'(2), of w c h] obtain t' where
      t': "update_rebalance (Node w c l r' h) = Some t'" "heights_ok t'"
        "inorder t' = inorder l @ (w, c) # inorder r'" by auto
    have "bst (Node w c l r h) \<longrightarrow> inorder t' = ins_list k (inorder (Node w c l r h))"
      using True r'(3) t'(3) by (auto simp: keys_def ins_list_right)
    with True r'(1) t' show ?thesis by auto
  next
    case False
    note nlt = this
    show ?thesis
    proof (cases "k < w")
      case True
      from Node.IH(1) [OF okl] obtain l' where
        l': "insertAux l k = Some l'" "heights_ok l'" "bst l \<longrightarrow> inorder l' = ins_list k (inorder l)"
        by auto
      from update_rebalance_ok [OF l'(2) okr, of w c h] obtain t' where
        t': "update_rebalance (Node w c l' r h) = Some t'" "heights_ok t'"
          "inorder t' = inorder l' @ (w, c) # inorder r" by auto
      have "bst (Node w c l r h) \<longrightarrow> inorder t' = ins_list k (inorder (Node w c l r h))"
        using True l'(3) t'(3) by (auto simp: ins_list_left)
      with True nlt l'(1) t' show ?thesis by auto
    next
      case False
      with nlt have eq: "k = w" by simp
      from update_rebalance_ok [OF okl okr, of w "int_wrap (c + 1)" h] obtain t' where
        t': "update_rebalance (Node w (int_wrap (c + 1)) l r h) = Some t'" "heights_ok t'"
          "inorder t' = inorder l @ (w, int_wrap (c + 1)) # inorder r" by auto
      have "bst (Node w c l r h) \<longrightarrow> inorder t' = ins_list k (inorder (Node w c l r h))"
        using eq t'(3) by (auto simp: keys_def ins_list_here)
      with eq t' show ?thesis by auto
    qed
  qed
qed

lemma insert_c_ok:
  assumes "heights_ok (root t)"
  shows "\<exists>t'. insert_c t k = Some t' \<and> heights_ok (root t') \<and> root t' \<noteq> Null \<and>
     (bst (root t) \<longrightarrow> inorder (root t') = ins_list k (inorder (root t)))"
proof (cases "root t = Null")
  case True
  then show ?thesis by (simp add: insert_c_def)
next
  case False
  with insertAux_ok [OF assms, of k] show ?thesis by (auto simp: insert_c_def)
qed



subsection \<open>Search\<close>

lemma searchAux_absent: "k \<notin> set (keys t) \<Longrightarrow> searchAux t k = Null"
  by (induction t) auto

lemma searchAux_found:
  "searchAux t k \<noteq> Null \<Longrightarrow> word (searchAux t k) = k \<and> searchAux t k \<in> set (nodes t)"
  by (induction t) (auto simp: Let_def split: if_splits)

lemma nodes_inorder:
  "nd \<in> set (nodes t) \<Longrightarrow> nd \<noteq> Null \<and> (word nd, count nd) \<in> set (inorder t)"
  by (induction t) auto

lemma searchAux_present:
  "bst t \<Longrightarrow> (k, c) \<in> set (inorder t) \<Longrightarrow>
   searchAux t k \<noteq> Null \<and> word (searchAux t k) = k \<and> count (searchAux t k) = c"
proof (induction t)
  case Null
  then show ?case by simp
next
  case (Node w n l r h)
  have in_keys: "\<And>x. (k, c) \<in> set (inorder x) \<Longrightarrow> k \<in> set (keys x)"
    by (force simp: keys_def)
  show ?case
  proof (cases "w < k")
    case True
    with Node.prems in_keys [of l] have "(k, c) \<in> set (inorder r)"
      by (auto dest: less_asym)
    with Node True show ?thesis by simp
  next
    case False
    note nlt = this
    show ?thesis
    proof (cases "k < w")
      case True
      with Node.prems in_keys [of r] have "(k, c) \<in> set (inorder l)"
        by (auto dest: less_asym)
      with Node True nlt show ?thesis by simp
    next
      case False
      with nlt have "k = w" by simp
      with Node.prems in_keys [of l] in_keys [of r] have "c = n" by auto
      with \<open>k = w\<close> show ?thesis by simp
    qed
  qed
qed

subsection \<open>Deletion\<close>

lemma smallestIn_ok:
  "t \<noteq> Null \<Longrightarrow>
   \<exists>temp. smallestIn t = Some temp \<and> temp \<noteq> Null \<and> (word temp, count temp) \<in> set (inorder t)"
  by (induction t) auto

lemma largestIn_ok:
  "t \<noteq> Null \<Longrightarrow>
   \<exists>temp. largestIn t = Some temp \<and> temp \<noteq> Null \<and> (word temp, count temp) \<in> set (inorder t)"
  by (induction t) auto

lemma in_inorder_keys: "(k, c) \<in> set (inorder t) \<Longrightarrow> k \<in> set (keys t)"
  by (force simp: keys_def)

lemma deleteAux_ok:
  "heights_ok t \<Longrightarrow>
   \<exists>t' s'. deleteAux rnd t k f s = Some (t', s') \<and> heights_ok t' \<and> set (keys t') \<subseteq> set (keys t)"
proof (induction t arbitrary: k f s)
  case Null
  then show ?case by simp
next
  case (Node w c l r h)
  then have okl: "heights_ok l" and okr: "heights_ok r" by auto
  have tail: "\<And>w' c' l' r'. heights_ok l' \<Longrightarrow> heights_ok r' \<Longrightarrow>
      \<exists>t'. update_rebalance (Node w' c' l' r' h) = Some t' \<and> heights_ok t' \<and>
        set (keys t') = set (keys l') \<union> {w'} \<union> set (keys r')"
  proof -
    fix w' c' l' r'
    assume "heights_ok l'" "heights_ok r'"
    from update_rebalance_ok [OF this, of w' c' h] show
      "\<exists>t'. update_rebalance (Node w' c' l' r' h) = Some t' \<and> heights_ok t' \<and>
        set (keys t') = set (keys l') \<union> {w'} \<union> set (keys r')"
      by (auto simp: keys_def)
  qed
  show ?case
  proof (cases "w < k")
    case True
    from Node.IH(2) [OF okr, of k f s] obtain r' s' where
      r': "deleteAux rnd r k f s = Some (r', s')" "heights_ok r'" "set (keys r') \<subseteq> set (keys r)"
      by auto
    from tail [OF okl r'(2), of w c] r' True show ?thesis by auto
  next
    case False
    note nlt = this
    show ?thesis
    proof (cases "k < w")
      case True
      from Node.IH(1) [OF okl, of k f s] obtain l' s' where
        l': "deleteAux rnd l k f s = Some (l', s')" "heights_ok l'" "set (keys l') \<subseteq> set (keys l)"
        by auto
      from tail [OF l'(2) okr, of w c] l' True nlt show ?thesis by auto
    next
      case False
      with nlt have eq: "k = w" by simp
      show ?thesis
      proof (cases "c = 1 \<or> f \<noteq> 0")
        case False
        with eq okl okr Node.prems show ?thesis by auto
      next
        case True
        note del = this
        show ?thesis
        proof (cases "l \<noteq> Null \<and> r \<noteq> Null")
          case False
          with eq del okl okr show ?thesis by auto
        next
          case True
          let ?s1 = "s\<lparr>rand_calls := rand_calls s + 1\<rparr>"
          show ?thesis
          proof (cases "rnd (rand_calls s) mod 2 \<noteq> 0")
            case True
            note odd = this
            from smallestIn_ok [of r] \<open>l \<noteq> Null \<and> r \<noteq> Null\<close> obtain temp where
              temp: "smallestIn r = Some temp" "(word temp, count temp) \<in> set (inorder r)"
              by auto
            from Node.IH(2) [OF okr, of "word temp" 1 ?s1] obtain r' s' where
              r': "deleteAux rnd r (word temp) 1 ?s1 = Some (r', s')" "heights_ok r'"
                "set (keys r') \<subseteq> set (keys r)" by auto
            from tail [OF okl r'(2), of "word temp" "count temp"] obtain t' where
              t': "update_rebalance (Node (word temp) (count temp) l r' h) = Some t'"
                "heights_ok t'" "set (keys t') = set (keys l) \<union> {word temp} \<union> set (keys r')"
              by auto
            have "deleteAux rnd (Node w c l r h) k f s = Some (t', s')"
              using eq del \<open>l \<noteq> Null \<and> r \<noteq> Null\<close> odd temp(1) r'(1) t'(1)
              by (simp add: Let_def)
            moreover have "set (keys t') \<subseteq> set (keys (Node w c l r h))"
              using t'(3) r'(3) in_inorder_keys [OF temp(2)] by auto
            ultimately show ?thesis using t'(2) by blast
          next
            case False
            note even = this
            from largestIn_ok [of r] \<open>l \<noteq> Null \<and> r \<noteq> Null\<close> obtain temp where
              temp: "largestIn r = Some temp" "(word temp, count temp) \<in> set (inorder r)"
              by auto
            from Node.IH(1) [OF okl, of "word temp" 1 ?s1] obtain l' s' where
              l': "deleteAux rnd l (word temp) 1 ?s1 = Some (l', s')" "heights_ok l'"
                "set (keys l') \<subseteq> set (keys l)" by auto
            from tail [OF l'(2) okr, of "word temp" "count temp"] obtain t' where
              t': "update_rebalance (Node (word temp) (count temp) l' r h) = Some t'"
                "heights_ok t'" "set (keys t') = set (keys l') \<union> {word temp} \<union> set (keys r)"
              by auto
            have "deleteAux rnd (Node w c l r h) k f s = Some (t', s')"
              using eq del \<open>l \<noteq> Null \<and> r \<noteq> Null\<close> even temp(1) l'(1) t'(1)
              by (simp add: Let_def)
            moreover have "set (keys t') \<subseteq> set (keys (Node w c l r h))"
              using t'(3) l'(3) in_inorder_keys [OF temp(2)] by auto
            ultimately show ?thesis using t'(2) by blast
          qed
        qed
      qed
    qed
  qed
qed

lemma deleteAux_removes:
  "bst t \<Longrightarrow> heights_ok t \<Longrightarrow> f \<noteq> 0 \<or> (k, 1) \<in> set (inorder t) \<Longrightarrow>
   deleteAux rnd t k f s = Some (t', s') \<Longrightarrow> k \<notin> set (keys t')"
proof (induction t arbitrary: s t' s')
  case Null
  then show ?case by auto
next
  case (Node w c l r h)
  from Node.prems(1,2) have okl: "heights_ok l" and okr: "heights_ok r" and bl: "bst l" and br: "bst r"
    and lt: "\<forall>x \<in> set (keys l). x < w" and gt: "\<forall>x \<in> set (keys r). w < x"
    by auto
  have tail: "\<And>w' c' l' r' t'. heights_ok l' \<Longrightarrow> heights_ok r' \<Longrightarrow>
      update_rebalance (Node w' c' l' r' h) = Some t' \<Longrightarrow>
      set (keys t') = set (keys l') \<union> {w'} \<union> set (keys r')"
  proof -
    fix w' c' l' r' t'
    assume "heights_ok l'" "heights_ok r'" "update_rebalance (Node w' c' l' r' h) = Some t'"
    with update_rebalance_ok [of l' r' w' c' h] show
      "set (keys t') = set (keys l') \<union> {w'} \<union> set (keys r')"
      by (auto simp: keys_def)
  qed
  show ?case
  proof (cases "w < k")
    case True
    from deleteAux_ok [OF okr, of rnd k f s] obtain r' s1 where
      r': "deleteAux rnd r k f s = Some (r', s1)" "heights_ok r'" by auto
    from True lt have nl: "k \<notin> set (keys l)" by (auto dest: less_asym)
    with Node.prems(3) True have "f \<noteq> 0 \<or> (k, 1) \<in> set (inorder r)"
      by (auto dest: in_inorder_keys)
    from Node.IH(2) [OF br okr this r'(1)] have "k \<notin> set (keys r')" .
    moreover from Node.prems(4) True r'(1)
    have "update_rebalance (Node w c l r' h) = Some t'" by auto
    from tail [OF okl r'(2) this] have "set (keys t') = set (keys l) \<union> {w} \<union> set (keys r')" .
    ultimately show ?thesis using nl True by auto
  next
    case False
    note nlt = this
    show ?thesis
    proof (cases "k < w")
      case True
      from deleteAux_ok [OF okl, of rnd k f s] obtain l' s1 where
        l': "deleteAux rnd l k f s = Some (l', s1)" "heights_ok l'" by auto
      from True gt have nr: "k \<notin> set (keys r)" by (auto dest: less_asym)
      with Node.prems(3) True have "f \<noteq> 0 \<or> (k, 1) \<in> set (inorder l)"
        by (auto dest: in_inorder_keys)
      from Node.IH(1) [OF bl okl this l'(1)] have "k \<notin> set (keys l')" .
      moreover from Node.prems(4) True nlt l'(1)
      have "update_rebalance (Node w c l' r h) = Some t'" by auto
      from tail [OF l'(2) okr this] have "set (keys t') = set (keys l') \<union> {w} \<union> set (keys r)" .
      ultimately show ?thesis using nr True by auto
    next
      case False
      with nlt have eq: "k = w" by simp
      from eq lt have nl: "k \<notin> set (keys l)" by auto
      from eq gt have nr: "k \<notin> set (keys r)" by auto
      from Node.prems(3) eq nl nr have del: "c = 1 \<or> f \<noteq> 0"
        by (auto dest: in_inorder_keys)
      show ?thesis
      proof (cases "l \<noteq> Null \<and> r \<noteq> Null")
        case False
        with Node.prems(4) eq del nl nr show ?thesis by (auto split: if_splits)
      next
        case True
        let ?s1 = "s\<lparr>rand_calls := rand_calls s + 1\<rparr>"
        show ?thesis
        proof (cases "rnd (rand_calls s) mod 2 \<noteq> 0")
          case True
          note odd = this
          from smallestIn_ok [of r] \<open>l \<noteq> Null \<and> r \<noteq> Null\<close> obtain temp where
            temp: "smallestIn r = Some temp" "(word temp, count temp) \<in> set (inorder r)"
            by auto
          from deleteAux_ok [OF okr, of rnd "word temp" 1 ?s1] obtain r' s1 where
            r': "deleteAux rnd r (word temp) 1 ?s1 = Some (r', s1)" "heights_ok r'"
              "set (keys r') \<subseteq> set (keys r)" by auto
          from Node.prems(4) eq del \<open>l \<noteq> Null \<and> r \<noteq> Null\<close> odd temp(1) r'(1)
          have "update_rebalance (Node (word temp) (count temp) l r' h) = Some t'"
            by (auto simp: Let_def)
          from tail [OF okl r'(2) this]
          have "set (keys t') = set (keys l) \<union> {word temp} \<union> set (keys r')" .
          with nl nr r'(3) in_inorder_keys [OF temp(2)] show ?thesis by auto
        next
          case False
          note even = this
          from largestIn_ok [of r] \<open>l \<noteq> Null \<and> r \<noteq> Null\<close> obtain temp where
            temp: "largestIn r = Some temp" "(word temp, count temp) \<in> set (inorder r)"
            by auto
          from deleteAux_ok [OF okl, of rnd "word temp" 1 ?s1] obtain l' s1 where
            l': "deleteAux rnd l (word temp) 1 ?s1 = Some (l', s1)" "heights_ok l'"
              "set (keys l') \<subseteq> set (keys l)" by auto
          from Node.prems(4) eq del \<open>l \<noteq> Null \<and> r \<noteq> Null\<close> even temp(1) l'(1)
          have "update_rebalance (Node (word temp) (count temp) l' r h) = Some t'"
            by (auto simp: Let_def)
          from tail [OF l'(2) okr this]
          have "set (keys t') = set (keys l') \<union> {word temp} \<union> set (keys r)" .
          with nl nr l'(3) in_inorder_keys [OF temp(2)] show ?thesis by auto
        qed
      qed
    qed
  qed
qed

lemma dec_list_absent: "k \<notin> fst ` set es \<Longrightarrow> dec_list k es = es"
  by (induction es) (auto simp: dec_list_def)

lemma dec_list_append: "dec_list k (xs @ ys) = dec_list k xs @ dec_list k ys"
  by (simp add: dec_list_def)

lemma deleteAux_decrement:
  "bst t \<Longrightarrow> heights_ok t \<Longrightarrow> (k, c) \<in> set (inorder t) \<Longrightarrow> c \<noteq> 1 \<Longrightarrow>
   deleteAux rnd t k 0 s = Some (t', s') \<Longrightarrow> inorder t' = dec_list k (inorder t) \<and> s' = s"
proof (induction t arbitrary: t' s')
  case Null
  then show ?case by auto
next
  case (Node w n l r h)
  from Node.prems(1,2) have okl: "heights_ok l" and okr: "heights_ok r" and bl: "bst l" and br: "bst r"
    and lt: "\<forall>x \<in> set (keys l). x < w" and gt: "\<forall>x \<in> set (keys r). w < x"
    by auto
  have absent: "\<And>x. k \<notin> set (keys x) \<Longrightarrow> dec_list k (inorder x) = inorder x"
    by (rule dec_list_absent) (simp add: keys_def)
  show ?case
  proof (cases "w < k")
    case True
    from deleteAux_ok [OF okr, of rnd k 0 s] obtain r' s1 where
      r': "deleteAux rnd r k 0 s = Some (r', s1)" "heights_ok r'" by auto
    from True lt have nl: "k \<notin> set (keys l)" by (auto dest: less_asym)
    with Node.prems(3) True have "(k, c) \<in> set (inorder r)"
      by (auto dest: in_inorder_keys)
    from Node.IH(2) [OF br okr this Node.prems(4) r'(1)]
    have r'': "inorder r' = dec_list k (inorder r)" "s1 = s" by auto
    from Node.prems(5) True r'(1)
    have "update_rebalance (Node w n l r' h) = Some t'" "s' = s1" by auto
    with update_rebalance_ok [OF okl r'(2), of w n h]
    have "inorder t' = inorder l @ (w, n) # inorder r'" by auto
    moreover from True have "w \<noteq> k" by auto
    ultimately show ?thesis using r'' \<open>s' = s1\<close> absent [OF nl]
      by (simp add: dec_list_append) (simp add: dec_list_def)
  next
    case False
    note nlt = this
    show ?thesis
    proof (cases "k < w")
      case True
      from deleteAux_ok [OF okl, of rnd k 0 s] obtain l' s1 where
        l': "deleteAux rnd l k 0 s = Some (l', s1)" "heights_ok l'" by auto
      from True gt have nr: "k \<notin> set (keys r)" by (auto dest: less_asym)
      with Node.prems(3) True have "(k, c) \<in> set (inorder l)"
        by (auto dest: in_inorder_keys)
      from Node.IH(1) [OF bl okl this Node.prems(4) l'(1)]
      have l'': "inorder l' = dec_list k (inorder l)" "s1 = s" by auto
      from Node.prems(5) True nlt l'(1)
      have "update_rebalance (Node w n l' r h) = Some t'" "s' = s1" by auto
      with update_rebalance_ok [OF l'(2) okr, of w n h]
      have "inorder t' = inorder l' @ (w, n) # inorder r" by auto
      moreover from True have "w \<noteq> k" by auto
      ultimately show ?thesis using l'' \<open>s' = s1\<close> absent [OF nr]
        by (simp add: dec_list_append) (simp add: dec_list_def)
    next
      case False
      with nlt have eq: "k = w" by simp
      from eq lt have nl: "k \<notin> set (keys l)" by auto
      from eq gt have nr: "k \<notin> set (keys r)" by auto
      from Node.prems(3) eq nl nr have "n = c" by (auto dest: in_inorder_keys)
      with Node.prems(4,5) eq have "t' = Node w (int_wrap (n - 1)) l r h" "s' = s" by auto
      with absent [OF nl] absent [OF nr] eq show ?thesis
        by (simp add: dec_list_append) (simp add: dec_list_def)
    qed
  qed
qed

lemma keys_dec_list: "map fst (dec_list k es) = map fst es"
  by (induction es) (auto simp: dec_list_def)

lemma dec_list_mem: "(k, c) \<in> set es \<Longrightarrow> (k, int_wrap (c - 1)) \<in> set (dec_list k es)"
  by (induction es) (auto simp: dec_list_def)

subsection \<open>What a delete leaves alone on a balanced tree\<close>

lemma run_ok:
  "heights_ok (root t) \<Longrightarrow>
   \<exists>t' s'. run rnd ops (t, s) = Some (t', s') \<and> heights_ok (root t')"
proof (induction ops arbitrary: t s)
  case Nil
  then show ?case by simp
next
  case (Cons x ops)
  have "\<exists>t1 s1. apply_operation rnd x (t, s) = Some (t1, s1) \<and> heights_ok (root t1)"
  proof (cases x)
    case (Insert wd)
    with insert_c_ok [OF Cons.prems, of wd] show ?thesis by auto
  next
    case (Delete wd)
    show ?thesis
    proof (cases "root t = Null")
      case True
      with Delete Cons.prems show ?thesis by (simp add: deleteFromTree_def)
    next
      case False
      with deleteAux_ok [OF Cons.prems, of rnd wd 0 s] Delete show ?thesis
        by (auto simp: deleteFromTree_def)
    qed
  qed
  then obtain t1 s1 where
    "apply_operation rnd x (t, s) = Some (t1, s1)" "heights_ok (root t1)" by blast
  with Cons.IH [OF this(2), of s1] show ?case by simp
qed

lemma update_rebalance_id:
  "heights_ok (Node w c l r h) \<Longrightarrow> balanced (Node w c l r h) \<Longrightarrow>
   update_rebalance (Node w c l r h) = Some (Node w c l r h)"
proof -
  assume ok: "heights_ok (Node w c l r h)" and bal: "balanced (Node w c l r h)"
  from ok have h: "max_c (height_c l) (height_c r) + 1 = h"
    by (simp add: height_c_true)
  from bal have "\<not> 1 < height_c l - height_c r" "\<not> height_c l - height_c r < - 1"
    by auto
  then have "rebalance (Node w c l r h) = Some (Node w c l r h)" by simp
  with h show ?thesis by (simp add: update_rebalance_def del: rebalance.simps max_c_max)
qed

lemma deleteAux_absent:
  "heights_ok t \<Longrightarrow> balanced t \<Longrightarrow> k \<notin> set (keys t) \<Longrightarrow>
   deleteAux rnd t k f s = Some (t, printf (not_found_msg k) s)"
proof (induction t)
  case Null
  then show ?case by simp
next
  case (Node w c l r h)
  from Node.prems have sub: "deleteAux rnd l k f s = Some (l, printf (not_found_msg k) s)"
    "deleteAux rnd r k f s = Some (r, printf (not_found_msg k) s)"
    by (auto intro: Node.IH)
  from Node.prems(3) have "k \<noteq> w" by auto
  then consider "w < k" | "k < w" "\<not> w < k" by fastforce
  then show ?case
  proof cases
    case 1
    with sub(2) update_rebalance_id [OF Node.prems(1,2)] show ?thesis by simp
  next
    case 2
    with sub(1) update_rebalance_id [OF Node.prems(1,2)] show ?thesis by simp
  qed
qed

lemma decrement_count_height [simp]: "height_c (decrement_count t k) = height_c t"
  by (cases t) auto

lemma decrement_count_true_height [simp]: "true_height (decrement_count t k) = true_height t"
  by (induction t) auto

lemma decrement_count_heights_ok: "heights_ok t \<Longrightarrow> heights_ok (decrement_count t k)"
  by (induction t) auto

lemma decrement_count_balanced: "balanced t \<Longrightarrow> balanced (decrement_count t k)"
  by (induction t) auto

lemma deleteAux_decrement_in_place:
  "heights_ok t \<Longrightarrow> balanced t \<Longrightarrow> searchAux t k \<noteq> Null \<Longrightarrow>
   count (searchAux t k) \<noteq> 1 \<Longrightarrow>
   deleteAux rnd t k 0 s = Some (decrement_count t k, s)"
proof (induction t)
  case Null
  then show ?case by simp
next
  case (Node w c l r h)
  from Node.prems(1,2) have okl: "heights_ok l" "balanced l" and okr: "heights_ok r" "balanced r"
    by auto
  show ?case
  proof (cases "w < k")
    case True
    with Node.prems(3,4) have "searchAux r k \<noteq> Null" "count (searchAux r k) \<noteq> 1" by auto
    from Node.IH(2) [OF okr this]
    have sub: "deleteAux rnd r k 0 s = Some (decrement_count r k, s)" .
    have "heights_ok (Node w c l (decrement_count r k) h)"
      "balanced (Node w c l (decrement_count r k) h)"
      using Node.prems(1,2) decrement_count_heights_ok [OF okr(1), of k]
        decrement_count_balanced [OF okr(2), of k] by auto
    from update_rebalance_id [OF this] sub True show ?thesis by simp
  next
    case False
    note nlt = this
    show ?thesis
    proof (cases "k < w")
      case True
      with nlt Node.prems(3,4) have "searchAux l k \<noteq> Null" "count (searchAux l k) \<noteq> 1" by auto
      from Node.IH(1) [OF okl this]
      have sub: "deleteAux rnd l k 0 s = Some (decrement_count l k, s)" .
      have "heights_ok (Node w c (decrement_count l k) r h)"
        "balanced (Node w c (decrement_count l k) r h)"
        using Node.prems(1,2) decrement_count_heights_ok [OF okl(1), of k]
          decrement_count_balanced [OF okl(2), of k] by auto
      from update_rebalance_id [OF this] sub True nlt show ?thesis by simp
    next
      case False
      with nlt Node.prems(4) show ?thesis by simp
    qed
  qed
qed

subsection \<open>The recorded rotations do not change the result\<close>

lemma rebalance_traced_fst: "map_option fst (rebalance_traced nd) = rebalance nd"
  by (cases nd) (auto simp: Let_def option.map_comp comp_def option.map_ident split: option.splits)

lemma insertAux_traced_fst: "map_option fst (insertAux_traced nd wd) = insertAux nd wd"
proof (induction nd)
  case Null
  then show ?case by simp
next
  case (Node w c l r h)
  have tail: "\<And>x tr. map_option fst (map_option (\<lambda>(nd, tr'). (nd, tr @ tr'))
      (rebalance_traced (update_height x))) = update_rebalance x"
    unfolding update_rebalance_def rebalance_traced_fst [symmetric]
    by (simp add: option.map_comp comp_def split_def)
  show ?case
  proof (cases "w < wd")
    case True
    show ?thesis
    proof (cases "insertAux_traced r wd")
      case None
      with Node.IH(2) True show ?thesis by simp
    next
      case (Some p)
      with Node.IH(2) have "insertAux r wd = Some (fst p)" by simp
      with Some True tail show ?thesis
        by (simp add: split_def del: rebalance_traced.simps update_height.simps)
    qed
  next
    case False
    note nlt = this
    show ?thesis
    proof (cases "wd < w")
      case True
      show ?thesis
      proof (cases "insertAux_traced l wd")
        case None
        with Node.IH(1) True nlt show ?thesis by simp
      next
        case (Some p)
        with Node.IH(1) have "insertAux l wd = Some (fst p)" by simp
        with Some True nlt tail show ?thesis
          by (simp add: split_def del: rebalance_traced.simps update_height.simps)
      qed
    next
      case False
      with nlt show ?thesis
        by (simp add: update_rebalance_def rebalance_traced_fst del: rebalance_traced.simps rebalance.simps update_height.simps)
    qed
  qed
qed

lemma insert_traced_fst: "map_option fst (insert_traced t wd) = insert_c t wd"
proof (cases "insertAux_traced (root t) wd")
  case None
  with insertAux_traced_fst [of "root t" wd] show ?thesis
    by (simp add: insert_traced_def insert_c_def)
next
  case (Some p)
  with insertAux_traced_fst [of "root t" wd] have "insertAux (root t) wd = Some (fst p)" by simp
  with Some show ?thesis by (simp add: insert_traced_def insert_c_def split_def)
qed

lemma insert_all_traced_fst: "map_option fst (insert_all_traced t wds) = insert_all t wds"
proof (induction wds arbitrary: t)
  case Nil
  then show ?case by simp
next
  case (Cons wd wds)
  show ?case
  proof (cases "insert_traced t wd")
    case None
    with insert_traced_fst [of t wd] show ?thesis by simp
  next
    case (Some p)
    with insert_traced_fst [of t wd] have "insert_c t wd = Some (fst p)" by simp
    with Some Cons.IH [of "fst p"] show ?thesis
      by (simp add: split_def option.map_comp comp_def)
  qed
qed

subsection \<open>Repeated insertion\<close>








subsection \<open>Search and delete on a tree in BST order\<close>

text \<open>
  On a tree in BST order search returns a cell of the tree with the searched word when the
  word is in the tree, and \<^verbatim>\<open>NULL\<close> when it is not.
\<close>

lemma search_bst:
  assumes "bst (root t)"
  shows "(k \<in> set (keys (root t)) \<longrightarrow>
            search t k \<noteq> Null \<and> search t k \<in> set (nodes (root t)) \<and> word (search t k) = k) \<and>
         (k \<notin> set (keys (root t)) \<longrightarrow> search t k = Null)"
proof (intro conjI impI)
  assume "k \<in> set (keys (root t))"
  then obtain c where mem: "(k, c) \<in> set (inorder (root t))" by (auto simp: keys_def)
  then have nn: "root t \<noteq> Null" by auto
  from searchAux_present [OF assms mem] have "searchAux (root t) k \<noteq> Null" by simp
  with searchAux_found [of "root t" k] nn
  show "search t k \<noteq> Null" "search t k \<in> set (nodes (root t))" "word (search t k) = k"
    by (simp_all add: search_def)
next
  assume "k \<notin> set (keys (root t))"
  then show "search t k = Null" by (simp add: search_def searchAux_absent)
qed

text \<open>
  On a tree in BST order with correct heights, a delete of a word that search finds with
  count \<open>c\<close> returns; after it search reports not-found when \<open>c = 1\<close> and the count stepped
  down when \<open>c > 1\<close>.
\<close>

lemma delete_then_search_bst:
  assumes "bst (root t)" and "heights_ok (root t)"
    and "search t k \<noteq> Null" and "count (search t k) = c"
  shows "\<exists>t' s'. deleteFromTree rnd t k s = Some (t', s') \<and>
     (c = 1 \<longrightarrow> search t' k = Null) \<and>
     (1 < c \<longrightarrow> search t' k \<noteq> Null \<and> count (search t' k) = int_wrap (c - 1))"
proof -
  from assms(3) have nn: "root t \<noteq> Null" and found: "searchAux (root t) k \<noteq> Null"
    by (auto simp: search_def split: if_splits)
  from searchAux_found [OF found] nodes_inorder [of "searchAux (root t) k" "root t"] assms(4) nn
  have mem: "(k, c) \<in> set (inorder (root t))" by (simp add: search_def)
  from deleteAux_ok [OF assms(2), of rnd k 0 s] obtain nd s' where
    del: "deleteAux rnd (root t) k 0 s = Some (nd, s')" by auto
  let ?t' = "t\<lparr>root := nd\<rparr>"
  from del nn have res: "deleteFromTree rnd t k s = Some (?t', s')"
    by (simp add: deleteFromTree_def)
  have "search ?t' k = Null" if "c = 1"
  proof -
    from that mem have "0 \<noteq> (0::int) \<or> (k, 1) \<in> set (inorder (root t))" by simp
    from deleteAux_removes [OF assms(1,2) this del] show ?thesis
      by (simp add: search_def searchAux_absent)
  qed
  moreover have "search ?t' k \<noteq> Null \<and> count (search ?t' k) = int_wrap (c - 1)" if "1 < c"
  proof -
    from that have "c \<noteq> 1" by simp
    from deleteAux_decrement [OF assms(1,2) mem this del]
    have io: "inorder nd = dec_list k (inorder (root t))" by simp
    with assms(1) have "bst nd" by (simp add: bst_ascending keys_def keys_dec_list)
    moreover from io dec_list_mem [OF mem] have mem': "(k, int_wrap (c - 1)) \<in> set (inorder nd)" by simp
    ultimately have "searchAux nd k \<noteq> Null \<and> count (searchAux nd k) = int_wrap (c - 1)"
      using searchAux_present by blast
    moreover from mem' have "nd \<noteq> Null" by auto
    ultimately show ?thesis by (simp add: search_def)
  qed
  ultimately show ?thesis using res by blast
qed

lemmas run_defs = createTree_def insert_c_def deleteFromTree_def update_rebalance_def int_wrap_def
  world0_def printf_def not_found_msg_def tree_empty_msg_def keys_def

section \<open>The claims\<close>

text \<open>
  Claim C1 (two-child deletion keeps the BST order, on either branch). The code does not
  do this on the branch taken when \<^verbatim>\<open>rand()\<close> is even. On the tree built from d, b, f, a, c,
  e, g, which is in BST order, deleting d with an odd \<^verbatim>\<open>rand()\<close> promotes the successor e and
  leaves a, b, c, e, f, g. With an even \<^verbatim>\<open>rand()\<close> the code copies g, the largest key of the
  right subtree, into the root and force-deletes g in the left subtree, where it is not:
  the in-order sequence becomes a, b, c, g, e, f, g, which is not in BST order.
\<close>

theorem two_child_delete_promotes_largest_of_right:
  "insert_all createTree [''d'', ''b'', ''f'', ''a'', ''c'', ''e'', ''g''] = Some seven_tree \<and>
   bst (root seven_tree) \<and>
   map_option word (smallestIn (right (root seven_tree))) = Some ''e'' \<and>
   map_option word (largestIn (right (root seven_tree))) = Some ''g'' \<and>
   map_option (\<lambda>p. keys (fst p)) (deleteAux (\<lambda>n. 1) (root seven_tree) ''d'' 0 world0) =
     Some [''a'', ''b'', ''c'', ''e'', ''f'', ''g''] \<and>
   map_option (\<lambda>p. keys (fst p)) (deleteAux (\<lambda>n. 0) (root seven_tree) ''d'' 0 world0) =
     Some [''a'', ''b'', ''c'', ''g'', ''e'', ''f'', ''g''] \<and>
   map_option (\<lambda>p. bst (fst p)) (deleteAux (\<lambda>n. 0) (root seven_tree) ''d'' 0 world0) =
     Some False"
  by (simp add: run_defs seven_tree_def)

text \<open>
  Claim C2 (rebalance follows the four-case table). The code tests the child's balance
  factor with \<^verbatim>\<open>> 0\<close> and \<^verbatim>\<open>< 0\<close>, so a node with balance factor 2 whose left child has balance
  factor 0 falls through every case: on the tree c(b(a, bb), -), whose height fields are
  correct, \<^verbatim>\<open>rebalance\<close> returns the node as it is, where the table asks for the right rotation
  that \<^verbatim>\<open>rotateRight\<close> would have made.
\<close>

theorem rebalance_leaves_left_heavy:
  "heights_ok left_heavy \<and> getBalance left_heavy = 2 \<and> getBalance (left left_heavy) = 0 \<and>
   rebalance left_heavy = Some left_heavy \<and>
   rotateRight left_heavy =
     Some (Node ''b'' 1 (Node ''a'' 1 Null Null 1)
             (Node ''c'' 1 (Node ''bb'' 1 Null Null 1) Null 2) 3) \<and>
   \<not> balanced left_heavy"
  by (simp add: left_heavy_def)

text \<open>
  Claim C3 (after every operation the tree is AVL balanced and the heights are correct).
  Inserting c, b, d, a, bb and deleting d, whatever \<^verbatim>\<open>rand()\<close> returns, leaves the root c with a
  left subtree of height 2 and no right subtree: the height fields are correct, the balance
  is not.
\<close>

theorem delete_leaves_tree_unbalanced:
  "run rnd [Insert ''c'', Insert ''b'', Insert ''d'', Insert ''a'', Insert ''bb'', Delete ''d'']
     (createTree, world0) = Some (\<lparr>root = left_heavy\<rparr>, world0) \<and>
   heights_ok left_heavy \<and> \<not> balanced left_heavy"
  by (simp add: run_defs left_heavy_def)

text \<open>
  Claim C4 (after every operation the tree is in BST order, its in-order sequence strictly
  ascending). Inserting d, b, f, a, c, e, g and deleting d, with \<^verbatim>\<open>rand()\<close> even, leaves the
  in-order sequence a, b, c, g, e, f, g.
\<close>

theorem delete_breaks_bst_order:
  "map_option (\<lambda>p. (keys (root (fst p)), bst (root (fst p)), ascending (keys (root (fst p)))))
     (run (\<lambda>n. 0)
        [Insert ''d'', Insert ''b'', Insert ''f'', Insert ''a'', Insert ''c'', Insert ''e'',
         Insert ''g'', Delete ''d''] (createTree, world0)) =
   Some ([''a'', ''b'', ''c'', ''g'', ''e'', ''f'', ''g''], False, False)"
  by (simp add: run_defs ascending_def)

text \<open>
  Claim C5 (delete by cases: decrement, removal of the node, not-found). The removal fails
  on the even branch of two-child deletion: on the seven-node tree, deleting d (count 1)
  with \<^verbatim>\<open>rand()\<close> even unlinks no cell. The tree still has seven cells, g stands twice in it,
  and the forced delete of g in the left subtree prints the not-found message. (The other
  cases are the lemmas \<open>deleteAux_decrement_in_place\<close> and \<open>deleteAux_absent\<close> above.)
\<close>

theorem delete_removes_no_node:
  "bst (root seven_tree) \<and> heights_ok (root seven_tree) \<and> balanced (root seven_tree) \<and>
   count (search seven_tree ''d'') = 1 \<and> length (nodes (root seven_tree)) = 7 \<and>
   map_option (\<lambda>p. (length (nodes (root (fst p))), inorder (root (fst p)), stdout (snd p)))
     (deleteFromTree (\<lambda>n. 0) seven_tree ''d'' world0) =
   Some (7, [(''a'', 1), (''b'', 1), (''c'', 1), (''g'', 1), (''e'', 1), (''f'', 1), (''g'', 1)],
         not_found_msg ''g'')"
  by (simp add: run_defs seven_tree_def search_def)

text \<open>
  Claim C6 (delete, then search). The claim holds on every tree in BST order with correct
  heights (lemma \<open>delete_then_search_bst\<close>), but the program leaves that order: after
  inserting d, b, f, a, c, e, g and deleting d with \<^verbatim>\<open>rand()\<close> even, the tree holds g twice.
  Search then finds g with count 1, and after one delete of g, whichever way the next
  \<^verbatim>\<open>rand()\<close> falls, search still finds g with count 1.
\<close>

theorem delete_then_search_still_finds:
  "map_option fst
     (run (\<lambda>n. 0)
        [Insert ''d'', Insert ''b'', Insert ''f'', Insert ''a'', Insert ''c'', Insert ''e'',
         Insert ''g'', Delete ''d''] (createTree, world0)) = Some broken_tree \<and>
   word (search broken_tree ''g'') = ''g'' \<and> count (search broken_tree ''g'') = 1 \<and>
   map_option (\<lambda>p. (word (search (fst p) ''g''), count (search (fst p) ''g'')))
     (run (\<lambda>n. 0)
        [Insert ''d'', Insert ''b'', Insert ''f'', Insert ''a'', Insert ''c'', Insert ''e'',
         Insert ''g'', Delete ''d'', Delete ''g''] (createTree, world0)) = Some (''g'', 1) \<and>
   map_option (\<lambda>p. (word (search (fst p) ''g''), count (search (fst p) ''g'')))
     (run (\<lambda>n. int n)
        [Insert ''d'', Insert ''b'', Insert ''f'', Insert ''a'', Insert ''c'', Insert ''e'',
         Insert ''g'', Delete ''d'', Delete ''g''] (createTree, world0)) = Some (''g'', 1)"
  by (simp add: run_defs broken_tree_def search_def)




text \<open>
  Claim C8 (search). \<^verbatim>\<open>search\<close> and \<^verbatim>\<open>searchAux\<close> write nothing, and on every tree in BST order
  search returns the cell with the searched word (lemma \<open>search_bst\<close>). But the program
  leaves that order: after inserting d, b, f, a, c, e, g and deleting d with \<^verbatim>\<open>rand()\<close> even,
  the root holds g, the cell e is still in the right subtree, and the search for e turns
  left at the root and returns \<^verbatim>\<open>NULL\<close>.
\<close>

theorem search_misses_present_key:
  "map_option fst
     (run (\<lambda>n. 0)
        [Insert ''d'', Insert ''b'', Insert ''f'', Insert ''a'', Insert ''c'', Insert ''e'',
         Insert ''g'', Delete ''d''] (createTree, world0)) = Some broken_tree \<and>
   Node ''e'' 1 Null Null 1 \<in> set (nodes (root broken_tree)) \<and>
   ''e'' \<in> set (keys (root broken_tree)) \<and>
   search broken_tree ''e'' = Null"
  by (simp add: run_defs broken_tree_def search_def)

text \<open>
  Claim C9 (rotation trigger). From the empty tree, inserting c and b rotates nothing;
  inserting a then makes one call of \<^verbatim>\<open>rotateRight\<close>, on the cell c, and no other rotation (the
  Left-Left case). The tree is then b(a, c), the same tree \<^verbatim>\<open>insert\<close> builds without the
  record, and its in-order key sequence is a, b, c.
\<close>

theorem insert_c_b_a_one_right_rotation:
  "insert_all_traced createTree [''c'', ''b''] =
     Some (\<lparr>root = Node ''c'' 1 (Node ''b'' 1 Null Null 1) Null 2\<rparr>, []) \<and>
   insert_all_traced createTree [''c'', ''b'', ''a''] =
     Some (\<lparr>root = Node ''b'' 1 (Node ''a'' 1 Null Null 1) (Node ''c'' 1 Null Null 1) 2\<rparr>,
           [RotateRight ''c'']) \<and>
   insert_all createTree [''c'', ''b'', ''a''] =
     Some \<lparr>root = Node ''b'' 1 (Node ''a'' 1 Null Null 1) (Node ''c'' 1 Null Null 1) 2\<rparr> \<and>
   keys (Node ''b'' 1 (Node ''a'' 1 Null Null 1) (Node ''c'' 1 Null Null 1) 2) =
     [''a'', ''b'', ''c'']"
  by (simp add: run_defs insert_traced_def)

text \<open>
  Claim C10 (no null dereference in rebalance). For a node whose height fields are
  correct, \<^verbatim>\<open>rebalance\<close> returns: none of the child reads of the rotations it calls is on
  \<^verbatim>\<open>NULL\<close>. A balance factor above 1 means the left child is there, one below -1 the right
  child; in the Left-Right and Right-Left cases the inner grandchild is there too.
  \<^verbatim>\<open>height\<close> and \<^verbatim>\<open>getBalance\<close> answer 0 on \<^verbatim>\<open>NULL\<close>.
\<close>

theorem rebalance_no_null_dereference:
  assumes "heights_ok nd"
  shows "(\<exists>nd'. rebalance nd = Some nd') \<and>
     (1 < getBalance nd \<longrightarrow> nd \<noteq> Null \<and> left nd \<noteq> Null) \<and>
     (getBalance nd < - 1 \<longrightarrow> nd \<noteq> Null \<and> right nd \<noteq> Null) \<and>
     (1 < getBalance nd \<and> getBalance (left nd) < 0 \<longrightarrow> right (left nd) \<noteq> Null) \<and>
     (getBalance nd < - 1 \<and> 0 < getBalance (right nd) \<longrightarrow> left (right nd) \<noteq> Null) \<and>
     height_c Null = 0 \<and> getBalance Null = 0"
proof (cases nd)
  case Null
  then show ?thesis by simp
next
  case (Node w c l r h)
  with assms have okl: "heights_ok l" and okr: "heights_ok r" by auto
  from rebalance_total [OF okl okr, of w c h] Node
  have "\<exists>nd'. rebalance nd = Some nd'" by auto
  moreover have "1 < getBalance nd \<longrightarrow> left nd \<noteq> Null"
    using Node height_c_nonneg [OF okr] by (cases l) auto
  moreover have "getBalance nd < - 1 \<longrightarrow> right nd \<noteq> Null"
    using Node height_c_nonneg [OF okl] by (cases r) auto
  moreover have "getBalance (left nd) < 0 \<longrightarrow> right (left nd) \<noteq> Null"
  proof (cases l)
    case Null
    with Node show ?thesis by simp
  next
    case (Node lw lc ll lr lh)
    with okl have "heights_ok ll" by simp
    from height_c_nonneg [OF this] Node \<open>nd = _\<close> show ?thesis by (cases lr) auto
  qed
  moreover have "0 < getBalance (right nd) \<longrightarrow> left (right nd) \<noteq> Null"
  proof (cases r)
    case Null
    with Node show ?thesis by simp
  next
    case (Node rw rc rl rr rh)
    with okr have "heights_ok rr" by simp
    from height_c_nonneg [OF this] Node \<open>nd = _\<close> show ?thesis by (cases rl) auto
  qed
  ultimately show ?thesis using Node by simp
qed

theorem rebalance_no_null_dereference_witness:
  "heights_ok (Node ''c'' 1 (Node ''b'' 1 (Node ''a'' 1 Null Null 1) Null 2) Null 3) \<and>
   1 < getBalance (Node ''c'' 1 (Node ''b'' 1 (Node ''a'' 1 Null Null 1) Null 2) Null 3) \<and>
   (\<exists>nd'. rebalance (Node ''c'' 1 (Node ''b'' 1 (Node ''a'' 1 Null Null 1) Null 2) Null 3) = Some nd')"
  using rebalance_no_null_dereference
    [of "Node ''c'' 1 (Node ''b'' 1 (Node ''a'' 1 Null Null 1) Null 2) Null 3"]
  by simp

end
